theory Spec2Isabelle
  imports Complex_Main "HOL-Library.AList" "HOL-Library.Multiset"
begin

section \<open>Data model\<close>

text \<open>
  A record of the dataset is a Python dict from column names to raw cells. The loader
  (\<^verbatim>\<open>csv.DictReader\<close>) produces strings, and \<^verbatim>\<open>None\<close> for the cells of a short row;
  the default arguments of \<^verbatim>\<open>row.get\<close> add the integer \<^verbatim>\<open>0\<close>, and \<^verbatim>\<open>percentile\<close>
  filters values that are already floats. A dict that must keep its insertion order
  (group-discovery order) is an association list: \<^const>\<open>AList.update\<close> replaces the
  value of a key in place and appends a new key at the end, as a Python dict does, and
  \<^const>\<open>map_of\<close> is \<^verbatim>\<open>dict.get\<close>.

  Python floats are modelled as exact reals: rounding, infinities and NaN are outside
  this embedding. The built-in \<^verbatim>\<open>float(s)\<close> on a string is a parameter \<open>pf\<close> of every
  operation (\<open>None\<close> where Python raises \<^verbatim>\<open>ValueError\<close>), so every theorem holds for
  any parser.
\<close>

datatype cell = Str string | PyNone | PyInt int | PyFloat real

type_synonym row = "string \<rightharpoonup> cell"

type_synonym parser = "string \<Rightarrow> real option"

datatype error = ValueError | TypeError | IndexError | AttributeError | StatisticsError

definition Unknown :: cell where
  "Unknown = Str ''Unknown''"

text \<open>\<^verbatim>\<open>row.get(col, default)\<close>\<close>

definition row_get :: "row \<Rightarrow> string \<Rightarrow> cell \<Rightarrow> cell" where
  "row_get r col dflt = (case r col of None \<Rightarrow> dflt | Some c \<Rightarrow> c)"

text \<open>\<^verbatim>\<open>float(val)\<close>: \<^verbatim>\<open>ValueError\<close> on a string that is no number, \<^verbatim>\<open>TypeError\<close> on \<^verbatim>\<open>None\<close>.\<close>

definition py_float :: "parser \<Rightarrow> cell \<Rightarrow> error + real" where
  "py_float pf c =
     (case c of
        Str s \<Rightarrow> (case pf s of None \<Rightarrow> Inl ValueError | Some x \<Rightarrow> Inr x)
      | PyNone \<Rightarrow> Inl TypeError
      | PyInt i \<Rightarrow> Inr (of_int i)
      | PyFloat x \<Rightarrow> Inr x)"

text \<open>\<^verbatim>\<open>_is_valid_number\<close>: try \<^verbatim>\<open>float(val)\<close>, catching \<^verbatim>\<open>ValueError\<close> and \<^verbatim>\<open>TypeError\<close>.\<close>

definition is_valid_number :: "parser \<Rightarrow> cell \<Rightarrow> bool" where
  "is_valid_number pf val =
     (case py_float pf val of
        Inr _ \<Rightarrow> True
      | Inl ValueError \<Rightarrow> False
      | Inl TypeError \<Rightarrow> False
      | Inl _ \<Rightarrow> False)"

text \<open>A \<^verbatim>\<open>map\<close> whose function may raise: the first exception ends the stream.\<close>

fun traverse :: "('a \<Rightarrow> error + 'b) \<Rightarrow> 'a list \<Rightarrow> error + 'b list" where
  "traverse f [] = Inr []"
| "traverse f (x # xs) =
     (case f x of
        Inl e \<Rightarrow> Inl e
      | Inr y \<Rightarrow> (case traverse f xs of Inl e \<Rightarrow> Inl e | Inr ys \<Rightarrow> Inr (y # ys)))"

text \<open>A \<^verbatim>\<open>reduce\<close> whose step may raise.\<close>

fun reduce_err :: "('b \<Rightarrow> 'a \<Rightarrow> error + 'b) \<Rightarrow> 'a list \<Rightarrow> 'b \<Rightarrow> error + 'b" where
  "reduce_err f [] acc = Inr acc"
| "reduce_err f (x # xs) acc =
     (case f acc x of Inl e \<Rightarrow> Inl e | Inr acc' \<Rightarrow> reduce_err f xs acc')"

text \<open>\<^verbatim>\<open>filter(lambda item: item is not None, ...)\<close>\<close>

definition not_none :: "'a option list \<Rightarrow> 'a list" where
  "not_none xs = List.map_filter id xs"

section \<open>Aggregator\<close>

subsection \<open>aggregate\<close>

text \<open>
  Stream 1 of \<^verbatim>\<open>aggregate\<close> (and of \<^verbatim>\<open>rank\<close>): a row becomes \<^verbatim>\<open>(key, value)\<close> when
  \<^verbatim>\<open>row.get(value_col)\<close> is a valid number, and \<^verbatim>\<open>None\<close> otherwise. The value is
  \<^verbatim>\<open>float(row.get(value_col, 0))\<close>, a second lookup with another default.
\<close>

definition kv_item :: "parser \<Rightarrow> string \<Rightarrow> string \<Rightarrow> row \<Rightarrow> error + (cell \<times> real) option" where
  "kv_item pf group_col value_col r =
     (if is_valid_number pf (row_get r value_col PyNone)
      then (case py_float pf (row_get r value_col (PyInt 0)) of
              Inl e \<Rightarrow> Inl e
            | Inr x \<Rightarrow> Inr (Some (row_get r group_col Unknown, x)))
      else Inr None)"

text \<open>Stream 2: \<^verbatim>\<open>{**acc, item[0]: acc.get(item[0], []) + [item[1]]}\<close>\<close>

definition group_step :: "(cell \<times> real list) list \<Rightarrow> cell \<times> real \<Rightarrow> (cell \<times> real list) list" where
  "group_step acc item =
     AList.update (fst item)
       ((case map_of acc (fst item) of None \<Rightarrow> [] | Some vs \<Rightarrow> vs) @ [snd item]) acc"

definition grouped :: "(cell \<times> real) list \<Rightarrow> (cell \<times> real list) list" where
  "grouped stream = foldl group_step [] stream"

text \<open>Stream 3: the table of reductions. \<^verbatim>\<open>count\<close> is an integer in Python.\<close>

definition op_sum :: "real list \<Rightarrow> real" where
  "op_sum v = sum_list v"

definition op_avg :: "real list \<Rightarrow> real" where
  "op_avg v = (if v \<noteq> [] then sum_list v / real (length v) else 0)"

definition op_min :: "real list \<Rightarrow> real" where
  "op_min v = (if v \<noteq> [] then Min (set v) else 0)"

definition op_max :: "real list \<Rightarrow> real" where
  "op_max v = (if v \<noteq> [] then Max (set v) else 0)"

definition op_count :: "real list \<Rightarrow> real" where
  "op_count v = real (length v)"

definition aggregate_ops :: "string \<rightharpoonup> (real list \<Rightarrow> real)" where
  "aggregate_ops =
     [''sum'' \<mapsto> op_sum, ''avg'' \<mapsto> op_avg, ''min'' \<mapsto> op_min, ''max'' \<mapsto> op_max,
      ''count'' \<mapsto> op_count]"

text \<open>\<^verbatim>\<open>ops.get(operation, ops["sum"])\<close>\<close>

definition aggregate_func :: "string \<Rightarrow> real list \<Rightarrow> real" where
  "aggregate_func operation =
     (case aggregate_ops operation of None \<Rightarrow> op_sum | Some f \<Rightarrow> f)"

definition aggregate ::
  "parser \<Rightarrow> string list \<Rightarrow> row list \<Rightarrow> string \<Rightarrow> string \<Rightarrow> string \<Rightarrow> error + (cell \<times> real) list"
where
  "aggregate pf headers data group_col value_col operation =
     (if group_col \<notin> set headers \<or> value_col \<notin> set headers then Inl ValueError
      else case traverse (kv_item pf group_col value_col) data of
             Inl e \<Rightarrow> Inl e
           | Inr items \<Rightarrow>
               Inr (map (\<lambda>(key, values). (key, aggregate_func operation values))
                      (grouped (not_none items))))"

subsection \<open>group\_by\_multi\<close>

text \<open>
  A nested dict: a leaf is a number, an inner node a dict. \<^verbatim>\<open>build_nested\<close> walks
  \<^verbatim>\<open>keys[:-1]\<close> with \<^verbatim>\<open>setdefault\<close> and adds the value at \<^verbatim>\<open>keys[-1]\<close>. The empty
  tuple has no last key (\<^verbatim>\<open>IndexError\<close>), \<^verbatim>\<open>setdefault\<close> on a number is an
  \<^verbatim>\<open>AttributeError\<close>, and adding a float to a dict a \<^verbatim>\<open>TypeError\<close>.
\<close>

datatype nested = Leaf real | Node "(cell \<times> nested) list"

fun build_nested :: "(cell \<times> nested) list \<Rightarrow> cell list \<Rightarrow> real \<Rightarrow> error + (cell \<times> nested) list" where
  "build_nested current [] val = Inl IndexError"
| "build_nested current [last_key] val =
     (case map_of current last_key of
        None \<Rightarrow> Inr (AList.update last_key (Leaf (0 + val)) current)
      | Some (Leaf old) \<Rightarrow> Inr (AList.update last_key (Leaf (old + val)) current)
      | Some (Node d) \<Rightarrow> Inl TypeError)"
| "build_nested current (key # keys) val =
     (case map_of current key of
        None \<Rightarrow>
          (case build_nested [] keys val of
             Inl e \<Rightarrow> Inl e
           | Inr sub \<Rightarrow> Inr (AList.update key (Node sub) current))
      | Some (Node d) \<Rightarrow>
          (case build_nested d keys val of
             Inl e \<Rightarrow> Inl e
           | Inr sub \<Rightarrow> Inr (AList.update key (Node sub) current))
      | Some (Leaf old) \<Rightarrow> Inl AttributeError)"

text \<open>\<^verbatim>\<open>tuple(row.get(col, "Unknown") for col in group_cols)\<close>\<close>

definition key_tuple :: "string list \<Rightarrow> row \<Rightarrow> cell list" where
  "key_tuple group_cols r = map (\<lambda>col. row_get r col Unknown) group_cols"

definition multi_step ::
  "parser \<Rightarrow> string list \<Rightarrow> string \<Rightarrow> (cell \<times> nested) list \<Rightarrow> row \<Rightarrow> error + (cell \<times> nested) list"
where
  "multi_step pf group_cols value_col acc r =
     (case py_float pf (row_get r value_col (PyInt 0)) of
        Inl e \<Rightarrow> Inl e
      | Inr val \<Rightarrow> build_nested acc (key_tuple group_cols r) val)"

text \<open>The parameter \<open>operation\<close> is accepted and never read, as in the source.\<close>

definition group_by_multi ::
  "parser \<Rightarrow> string list \<Rightarrow> row list \<Rightarrow> string list \<Rightarrow> string \<Rightarrow> string
     \<Rightarrow> error + (cell \<times> nested) list"
where
  "group_by_multi pf headers data group_cols value_col operation =
     (if group_cols = [] \<or> value_col \<notin> set headers then Inl ValueError
      else reduce_err (multi_step pf group_cols value_col)
             (filter (\<lambda>r. is_valid_number pf (row_get r value_col PyNone)) data) [])"

subsection \<open>compare\_metrics\<close>






subsection \<open>filter\_by\_condition\<close>






subsection \<open>group\_and\_count\<close>

definition count_step :: "string \<Rightarrow> (cell \<times> nat) list \<Rightarrow> row \<Rightarrow> (cell \<times> nat) list" where
  "count_step group_col acc r =
     AList.update (row_get r group_col Unknown)
       ((case map_of acc (row_get r group_col Unknown) of None \<Rightarrow> 0 | Some n \<Rightarrow> n) + 1) acc"

definition group_and_count :: "row list \<Rightarrow> string \<Rightarrow> (cell \<times> nat) list" where
  "group_and_count data group_col = foldl (count_step group_col) [] data"

subsection \<open>cross\_tabulation\<close>

definition build_crosstab ::
  "string \<Rightarrow> string \<Rightarrow> (cell \<times> (cell \<times> nat) list) list \<Rightarrow> row \<Rightarrow> (cell \<times> (cell \<times> nat) list) list"
where
  "build_crosstab col1 col2 acc r =
     (let key1 = row_get r col1 Unknown;
          key2 = row_get r col2 Unknown;
          acc1 = (if map_of acc key1 = None then AList.update key1 [] acc else acc);
          inner = (case map_of acc1 key1 of None \<Rightarrow> [] | Some d \<Rightarrow> d)
      in AList.update key1
           (AList.update key2 ((case map_of inner key2 of None \<Rightarrow> 0 | Some n \<Rightarrow> n) + 1) inner)
           acc1)"

definition cross_tabulation :: "row list \<Rightarrow> string \<Rightarrow> string \<Rightarrow> (cell \<times> (cell \<times> nat) list) list" where
  "cross_tabulation data col1 col2 = foldl (build_crosstab col1 col2) [] data"

section \<open>Analyzer\<close>

subsection \<open>rank\<close>

definition rank_ops :: "string \<rightharpoonup> (real list \<Rightarrow> real)" where
  "rank_ops = [''sum'' \<mapsto> op_sum, ''avg'' \<mapsto> op_avg, ''count'' \<mapsto> op_count]"

definition rank_func :: "string \<Rightarrow> real list \<Rightarrow> real" where
  "rank_func operation = (case rank_ops operation of None \<Rightarrow> op_sum | Some f \<Rightarrow> f)"

text \<open>
  \<^verbatim>\<open>sorted(items, key=lambda x: x[1], reverse=True)\<close>: Python's sort is stable, also
  with \<^verbatim>\<open>reverse=True\<close>, so it is the stable ascending sort by the negated value.
\<close>

definition sorted_desc :: "('k \<times> real) list \<Rightarrow> ('k \<times> real) list" where
  "sorted_desc items = sort_key (\<lambda>x. - snd x) items"

text \<open>\<^verbatim>\<open>xs[:limit]\<close>, a negative limit counting from the end.\<close>

definition slice_to :: "int \<Rightarrow> 'a list \<Rightarrow> 'a list" where
  "slice_to limit xs =
     (if 0 \<le> limit then take (nat limit) xs else take (nat (int (length xs) + limit)) xs)"

definition rank ::
  "parser \<Rightarrow> row list \<Rightarrow> string \<Rightarrow> string \<Rightarrow> int \<Rightarrow> string \<Rightarrow> error + (cell \<times> real) list"
where
  "rank pf data rank_col value_col limit operation =
     (case traverse (kv_item pf rank_col value_col) data of
        Inl e \<Rightarrow> Inl e
      | Inr items \<Rightarrow>
          Inr (slice_to limit
                 (sorted_desc
                    (map (\<lambda>(key, values). (key, rank_func operation values))
                       (grouped (not_none items))))))"

subsection \<open>get\_statistics\<close>





text \<open>
  Stream 1 of \<^verbatim>\<open>get_statistics\<close> and \<^verbatim>\<open>find_outliers\<close>: \<^verbatim>\<open>row.get(col, 0)\<close> of every
  row, filtered by \<^verbatim>\<open>_is_valid_number\<close>. A row that lacks the column yields the default
  \<^verbatim>\<open>0\<close>, which is a valid number.
\<close>

definition valid_cells :: "parser \<Rightarrow> row list \<Rightarrow> string \<Rightarrow> cell list" where
  "valid_cells pf data col =
     filter (is_valid_number pf) (map (\<lambda>r. row_get r col (PyInt 0)) data)"


subsection \<open>correlate\_metrics\<close>






text \<open>\<^verbatim>\<open>round(x, ndigits)\<close>: to the nearest multiple of \<open>10 ^ -ndigits\<close>, a tie to the even one.\<close>

definition round_half_even :: "real \<Rightarrow> int" where
  "round_half_even y =
     (let f = \<lfloor>y\<rfloor>
      in if y - of_int f < 1 / 2 then f
         else if y - of_int f > 1 / 2 then f + 1
         else if even f then f else f + 1)"

definition py_round :: "real \<Rightarrow> nat \<Rightarrow> real" where
  "py_round x ndigits = of_int (round_half_even (x * 10 ^ ndigits)) / 10 ^ ndigits"




subsection \<open>find\_outliers\<close>


subsection \<open>percentile\<close>

text \<open>\<^verbatim>\<open>int(x)\<close> truncates towards zero; \<^verbatim>\<open>values[index]\<close> counts a negative index from the end.\<close>

definition py_int :: "real \<Rightarrow> int" where
  "py_int x = (if 0 \<le> x then \<lfloor>x\<rfloor> else \<lceil>x\<rceil>)"

definition py_index :: "'a list \<Rightarrow> int \<Rightarrow> error + 'a" where
  "py_index xs i =
     (if 0 \<le> i \<and> i < int (length xs) then Inr (xs ! nat i)
      else if i < 0 \<and> - int (length xs) \<le> i then Inr (xs ! nat (int (length xs) + i))
      else Inl IndexError)"

text \<open>
  In \<^verbatim>\<open>percentile\<close> the stream is converted first, \<^verbatim>\<open>float(row.get(col, 0))\<close> for every
  row, and filtered by \<^verbatim>\<open>_is_valid_number\<close> afterwards, when every element is a float.
\<close>

definition percentile :: "parser \<Rightarrow> row list \<Rightarrow> string \<Rightarrow> real \<Rightarrow> error + real" where
  "percentile pf data col p =
     (case traverse (\<lambda>r. py_float pf (row_get r col (PyInt 0))) data of
        Inl e \<Rightarrow> Inl e
      | Inr floats \<Rightarrow>
          let values = sort (filter (\<lambda>val. is_valid_number pf (PyFloat val)) floats)
          in if values = [] then Inr 0
             else py_index values (py_int ((p / 100) * real (length values - 1))))"

section \<open>Reference notions of the specification\<close>

text \<open>
  The entries of a column that parse as floats, in dataset order: a record that lacks the
  column, or holds \<^verbatim>\<open>None\<close> or a string that is no number there, has no such entry.
\<close>

definition parsed_entry :: "parser \<Rightarrow> string \<Rightarrow> row \<Rightarrow> real option" where
  "parsed_entry pf col r =
     (case r col of
        None \<Rightarrow> None
      | Some c \<Rightarrow> (case py_float pf c of Inl _ \<Rightarrow> None | Inr x \<Rightarrow> Some x))"

definition parsed_entries :: "parser \<Rightarrow> row list \<Rightarrow> string \<Rightarrow> real list" where
  "parsed_entries pf data col = List.map_filter (parsed_entry pf col) data"

text \<open>The pair a record contributes to a grouping by \<open>group_col\<close> of the values of \<open>value_col\<close>.\<close>

definition parsed_pair :: "parser \<Rightarrow> string \<Rightarrow> string \<Rightarrow> row \<Rightarrow> (cell \<times> real) option" where
  "parsed_pair pf group_col value_col r =
     map_option (\<lambda>x. (row_get r group_col Unknown, x)) (parsed_entry pf value_col r)"

text \<open>
  Notions for the cross-tabulation: every stored count is positive, no key occurs twice in
  the table or in one of its rows, and the count stored for a pair of keys (\<open>0\<close> when
  there is none).
\<close>

definition counts_positive :: "(cell \<times> (cell \<times> nat) list) list \<Rightarrow> bool" where
  "counts_positive acc = (\<forall>p \<in> set acc. \<forall>q \<in> set (snd p). 1 \<le> snd q)"

definition keys_distinct :: "(cell \<times> (cell \<times> nat) list) list \<Rightarrow> bool" where
  "keys_distinct acc =
     (distinct (map fst acc) \<and> (\<forall>p \<in> set acc. distinct (map fst (snd p))))"

definition cell_count :: "(cell \<times> (cell \<times> nat) list) list \<Rightarrow> cell \<Rightarrow> cell \<Rightarrow> nat" where
  "cell_count acc k1 k2 =
     (case map_of acc k1 of
        None \<Rightarrow> 0
      | Some inner \<Rightarrow> (case map_of inner k2 of None \<Rightarrow> 0 | Some c \<Rightarrow> c))"

text \<open>
  Notions for the nested mapping of \<^verbatim>\<open>groupByMulti\<close>: the entry at the end of a path of
  keys, the number stored in a leaf (\<open>0\<close> where there is no leaf), and the shape of a
  mapping with exactly \<open>n\<close> levels, whose leaves all lie at depth \<open>n\<close>.
\<close>

fun nested_lookup :: "cell list \<Rightarrow> (cell \<times> nested) list \<Rightarrow> nested option" where
  "nested_lookup [] d = None"
| "nested_lookup [k] d = map_of d k"
| "nested_lookup (k # ks) d =
     (case map_of d k of Some (Node sub) \<Rightarrow> nested_lookup ks sub | _ \<Rightarrow> None)"

fun leaf_value :: "nested option \<Rightarrow> real" where
  "leaf_value (Some (Leaf x)) = x"
| "leaf_value _ = 0"

primrec uniform_depth :: "nat \<Rightarrow> (cell \<times> nested) list \<Rightarrow> bool" where
  "uniform_depth 0 d = (d = [])"
| "uniform_depth (Suc n) d =
     (\<forall>p \<in> set d. case snd p of Leaf x \<Rightarrow> n = 0 | Node sub \<Rightarrow> n \<noteq> 0 \<and> uniform_depth n sub)"

text \<open>
  The numbers \<^verbatim>\<open>get_statistics\<close> and \<^verbatim>\<open>find_outliers\<close> compute with, in dataset order: the
  entries of the column that parse as floats, and the default \<open>0\<close> for a record that
  lacks the column.
\<close>

definition column_value :: "parser \<Rightarrow> string \<Rightarrow> row \<Rightarrow> real option" where
  "column_value pf col r =
     (case py_float pf (row_get r col (PyInt 0)) of Inl _ \<Rightarrow> None | Inr x \<Rightarrow> Some x)"

definition column_values :: "parser \<Rightarrow> row list \<Rightarrow> string \<Rightarrow> real list" where
  "column_values pf data col = List.map_filter (column_value pf col) data"



definition pearson_numerator :: "(real \<times> real) list \<Rightarrow> real" where
  "pearson_numerator ps =
     real (length ps) * (\<Sum>p\<leftarrow>ps. fst p * snd p) - (\<Sum>p\<leftarrow>ps. fst p) * (\<Sum>p\<leftarrow>ps. snd p)"

definition pearson_denominator :: "(real \<times> real) list \<Rightarrow> real" where
  "pearson_denominator ps =
     sqrt ((real (length ps) * (\<Sum>p\<leftarrow>ps. (fst p)\<^sup>2) - (\<Sum>p\<leftarrow>ps. fst p)\<^sup>2)
           * (real (length ps) * (\<Sum>p\<leftarrow>ps. (snd p)\<^sup>2) - (\<Sum>p\<leftarrow>ps. snd p)\<^sup>2))"

definition pearson :: "(real \<times> real) list \<Rightarrow> real" where
  "pearson ps =
     (if pearson_denominator ps = 0 then 0 else pearson_numerator ps / pearson_denominator ps)"

section \<open>Sample data\<close>

text \<open>A parser for the numerals of the examples; every other string is no number.\<close>

definition sample_float :: parser where
  "sample_float =
     map_of [(''1'', 1), (''2'', 2), (''3'', 3), (''4'', 4), (''6'', 6), (''8'', 8),
             (''10'', 10), (''20'', 20), (''30'', 30), (''40'', 40), (''50'', 50),
             (''100'', 100), (''150'', 150), (''200'', 200)]"

text \<open>
  Six records over the headers \<^verbatim>\<open>Group\<close> and \<^verbatim>\<open>Value\<close>: one value is no number, one
  record has an empty group and one lacks the group column.
\<close>

definition sample_headers :: "string list" where
  "sample_headers = [''Group'', ''Value'']"

definition sample_data :: "row list" where
  "sample_data =
     [[''Group'' \<mapsto> Str ''A'', ''Value'' \<mapsto> Str ''50''],
      [''Group'' \<mapsto> Str ''A'', ''Value'' \<mapsto> Str ''100''],
      [''Group'' \<mapsto> Str ''A'', ''Value'' \<mapsto> Str ''n/a''],
      [''Group'' \<mapsto> Str ''B'', ''Value'' \<mapsto> Str ''200''],
      [''Group'' \<mapsto> Str [], ''Value'' \<mapsto> Str ''30''],
      [''Value'' \<mapsto> Str ''150'']]"




section \<open>Lemmas about the operations\<close>

subsection \<open>Streams never raise\<close>

lemma is_valid_number_iff: "is_valid_number pf c \<longleftrightarrow> (\<exists>x. py_float pf c = Inr x)"
  by (cases "py_float pf c") (auto simp: is_valid_number_def split: error.splits)

lemma kv_item_total: "kv_item pf g v r = Inr (parsed_pair pf g v r)"
  by (cases "r v")
     (auto simp: kv_item_def parsed_pair_def parsed_entry_def row_get_def
        is_valid_number_iff py_float_def split: sum.splits)

lemma traverse_total:
  assumes "\<And>x. x \<in> set xs \<Longrightarrow> f x = Inr (g x)"
  shows "traverse f xs = Inr (map g xs)"
  using assms by (induction xs) auto

lemma not_none_map: "not_none (map f xs) = List.map_filter f xs"
  by (induction xs) (auto simp: not_none_def map_filter_simps split: option.splits)

lemma aggregate_stream:
  "traverse (kv_item pf g v) data = Inr (map (parsed_pair pf g v) data)"
  by (rule traverse_total) (rule kv_item_total)

subsection \<open>Sums over an updated dict\<close>

lemma sum_list_update_bump:
  fixes w :: "'v \<Rightarrow> 'a::comm_monoid_add"
  assumes "\<And>old. w (h (Some old)) = w old + d" and "w (h None) = d"
  shows "(\<Sum>p\<leftarrow>AList.update k (h (map_of al k)) al. w (snd p)) = (\<Sum>p\<leftarrow>al. w (snd p)) + d"
proof (induction al)
  case Nil
  show ?case by (simp add: assms(2))
next
  case (Cons p al)
  show ?case
  proof (cases "fst p = k")
    case True
    then show ?thesis by (cases p) (simp add: assms(1) ac_simps)
  next
    case False
    with Cons show ?thesis by (cases p) (simp add: ac_simps)
  qed
qed





subsection \<open>The fold of cross\_tabulation\<close>

lemma set_update_subset: "set (AList.update k v al) \<subseteq> insert (k, v) (set al)"
  by (induction al) auto

lemma build_crosstab_eq:
  "build_crosstab col1 col2 acc r =
     AList.update (row_get r col1 Unknown)
       (AList.update (row_get r col2 Unknown)
          ((case map_of (case map_of acc (row_get r col1 Unknown) of None \<Rightarrow> [] | Some d \<Rightarrow> d)
                  (row_get r col2 Unknown) of None \<Rightarrow> 0 | Some n \<Rightarrow> n) + 1)
          (case map_of acc (row_get r col1 Unknown) of None \<Rightarrow> [] | Some d \<Rightarrow> d))
       acc"
  by (cases "map_of acc (row_get r col1 Unknown)")
     (simp_all add: build_crosstab_def Let_def AList.update_conv')

lemma inner_count_bump:
  "(\<Sum>q\<leftarrow>AList.update k2 ((case map_of inner k2 of None \<Rightarrow> 0 | Some n \<Rightarrow> n) + 1) inner. snd q)
     = (\<Sum>q\<leftarrow>inner. snd q) + (1::nat)"
  by (rule sum_list_update_bump
        [where h = "\<lambda>old. (case old of None \<Rightarrow> 0 | Some n \<Rightarrow> n) + 1" and w = "\<lambda>c. c"])
     simp_all

lemma build_crosstab_total:
  "(\<Sum>p\<leftarrow>build_crosstab col1 col2 acc r. \<Sum>q\<leftarrow>snd p. snd q)
     = (\<Sum>p\<leftarrow>acc. \<Sum>q\<leftarrow>snd p. snd q) + (1::nat)"
  unfolding build_crosstab_eq
proof (rule sum_list_update_bump
        [where h = "\<lambda>old. AList.update (row_get r col2 Unknown)
                      ((case map_of (case old of None \<Rightarrow> [] | Some d \<Rightarrow> d)
                              (row_get r col2 Unknown) of None \<Rightarrow> 0 | Some n \<Rightarrow> n) + 1)
                      (case old of None \<Rightarrow> [] | Some d \<Rightarrow> d)"
           and w = "\<lambda>inner. \<Sum>q\<leftarrow>inner. snd q"])
  fix old :: "(cell \<times> nat) list"
  show "(\<Sum>q\<leftarrow>AList.update (row_get r col2 Unknown)
             ((case map_of (case Some old of None \<Rightarrow> [] | Some d \<Rightarrow> d)
                     (row_get r col2 Unknown) of None \<Rightarrow> 0 | Some n \<Rightarrow> n) + 1)
             (case Some old of None \<Rightarrow> [] | Some d \<Rightarrow> d). snd q)
          = (\<Sum>q\<leftarrow>old. snd q) + 1"
    using inner_count_bump [of "row_get r col2 Unknown" old] by simp
next
  show "(\<Sum>q\<leftarrow>AList.update (row_get r col2 Unknown)
             ((case map_of (case None of None \<Rightarrow> [] | Some d \<Rightarrow> d)
                     (row_get r col2 Unknown) of None \<Rightarrow> 0 | Some n \<Rightarrow> n) + 1)
             (case None of None \<Rightarrow> [] | Some d \<Rightarrow> d). snd q) = (1::nat)"
    by simp
qed

lemma foldl_crosstab_total:
  "(\<Sum>p\<leftarrow>foldl (build_crosstab col1 col2) acc data. \<Sum>q\<leftarrow>snd p. snd q)
     = (\<Sum>p\<leftarrow>acc. \<Sum>q\<leftarrow>snd p. snd q) + length data"
  by (induction data arbitrary: acc) (simp_all add: build_crosstab_total)

lemma update_list_all:
  assumes "\<forall>q \<in> set al. P q" and "P (k, v)"
  shows "\<forall>q \<in> set (AList.update k v al). P q"
  using assms set_update_subset [of k v al] by blast

lemma build_crosstab_positive:
  assumes "counts_positive acc"
  shows "counts_positive (build_crosstab col1 col2 acc r)"
proof -
  define k1 where "k1 = row_get r col1 Unknown"
  define k2 where "k2 = row_get r col2 Unknown"
  define inner where "inner = (case map_of acc k1 of None \<Rightarrow> [] | Some d \<Rightarrow> d)"
  define n where "n = (case map_of inner k2 of None \<Rightarrow> 0 | Some n \<Rightarrow> n) + 1"
  have inner: "\<forall>q \<in> set inner. 1 \<le> snd q"
  proof (cases "map_of acc k1")
    case None
    then show ?thesis by (simp add: inner_def)
  next
    case (Some d)
    then have "(k1, d) \<in> set acc" by (rule map_of_SomeD)
    with assms Some show ?thesis by (auto simp: counts_positive_def inner_def)
  qed
  have "\<forall>q \<in> set (AList.update k2 n inner). 1 \<le> snd q"
    by (rule update_list_all [OF inner]) (simp add: n_def)
  then have "\<forall>p \<in> set (AList.update k1 (AList.update k2 n inner) acc). \<forall>q \<in> set (snd p). 1 \<le> snd q"
    using assms by (intro update_list_all) (simp_all add: counts_positive_def)
  then show ?thesis
    unfolding build_crosstab_eq counts_positive_def k1_def k2_def inner_def n_def .
qed

lemma foldl_crosstab_positive:
  "counts_positive acc \<Longrightarrow> counts_positive (foldl (build_crosstab col1 col2) acc data)"
  by (induction data arbitrary: acc) (simp_all add: build_crosstab_positive)

lemma build_crosstab_distinct:
  assumes "keys_distinct acc"
  shows "keys_distinct (build_crosstab col1 col2 acc r)"
proof -
  define k1 where "k1 = row_get r col1 Unknown"
  define k2 where "k2 = row_get r col2 Unknown"
  define inner where "inner = (case map_of acc k1 of None \<Rightarrow> [] | Some d \<Rightarrow> d)"
  define n where "n = (case map_of inner k2 of None \<Rightarrow> 0 | Some n \<Rightarrow> n) + 1"
  have inner: "distinct (map fst inner)"
  proof (cases "map_of acc k1")
    case None
    then show ?thesis by (simp add: inner_def)
  next
    case (Some d)
    then have "(k1, d) \<in> set acc" by (rule map_of_SomeD)
    with assms Some show ?thesis by (auto simp: keys_distinct_def inner_def)
  qed
  have "distinct (map fst (AList.update k2 n inner))"
    using inner by (rule distinct_update)
  then have "\<forall>p \<in> set (AList.update k1 (AList.update k2 n inner) acc). distinct (map fst (snd p))"
    using assms by (intro update_list_all) (simp_all add: keys_distinct_def)
  moreover have "distinct (map fst (AList.update k1 (AList.update k2 n inner) acc))"
    using assms by (simp add: keys_distinct_def distinct_update)
  ultimately show ?thesis
    unfolding build_crosstab_eq keys_distinct_def k1_def k2_def inner_def n_def by simp
qed

lemma foldl_crosstab_distinct:
  "keys_distinct acc \<Longrightarrow> keys_distinct (foldl (build_crosstab col1 col2) acc data)"
  by (induction data arbitrary: acc) (simp_all add: build_crosstab_distinct)

lemma build_crosstab_cell:
  "cell_count (build_crosstab col1 col2 acc r) k1 k2
     = cell_count acc k1 k2
       + (if row_get r col1 Unknown = k1 \<and> row_get r col2 Unknown = k2 then 1 else 0)"
  unfolding build_crosstab_eq cell_count_def
  by (simp add: AList.update_conv' split: option.splits)

lemma foldl_crosstab_cell:
  "cell_count (foldl (build_crosstab col1 col2) acc data) k1 k2
     = cell_count acc k1 k2
       + length [r \<leftarrow> data. row_get r col1 Unknown = k1 \<and> row_get r col2 Unknown = k2]"
  by (induction data arbitrary: acc) (simp_all add: build_crosstab_cell)

subsection \<open>Lookups in the results of aggregate and group\_and\_count\<close>

lemma map_of_group_step:
  "map_of (group_step acc item)
     = (map_of acc)(fst item \<mapsto> (case map_of acc (fst item) of None \<Rightarrow> [] | Some vs \<Rightarrow> vs) @ [snd item])"
  by (simp add: group_step_def AList.update_conv')

lemma map_of_foldl_group_step:
  "map_of (foldl group_step acc items) k
     = (if [i \<leftarrow> items. fst i = k] = [] then map_of acc k
        else Some ((case map_of acc k of None \<Rightarrow> [] | Some vs \<Rightarrow> vs)
                     @ map snd [i \<leftarrow> items. fst i = k]))"
proof (induction items arbitrary: acc)
  case Nil
  show ?case by simp
next
  case (Cons i items)
  show ?case
    by (cases "fst i = k") (simp_all add: Cons map_of_group_step)
qed

lemma map_of_grouped:
  "map_of (grouped items) k
     = (if [i \<leftarrow> items. fst i = k] = [] then None else Some (map snd [i \<leftarrow> items. fst i = k]))"
  by (simp add: grouped_def map_of_foldl_group_step)



lemma filter_parsed_pairs:
  "map snd [i \<leftarrow> List.map_filter (parsed_pair pf g v) data. fst i = k]
     = parsed_entries pf [r \<leftarrow> data. row_get r g Unknown = k] v"
  by (induction data)
     (auto simp: parsed_entries_def parsed_pair_def map_filter_simps split: option.splits)

lemma map_of_map_values:
  "map_of (map (\<lambda>(key, values). (key, f values)) al) k = map_option f (map_of al k)"
  by (induction al) auto


lemma aggregate_eq:
  assumes "g \<in> set headers" and "v \<in> set headers"
  shows "aggregate pf headers data g v operation
           = Inr (map (\<lambda>(key, values). (key, aggregate_func operation values))
                    (grouped (List.map_filter (parsed_pair pf g v) data)))"
  using assms by (simp add: aggregate_def aggregate_stream not_none_map)

lemma aggregate_lookup:
  assumes "aggregate pf headers data g v operation = Inr agg"
  shows "map_of agg k
           = (if parsed_entries pf [r \<leftarrow> data. row_get r g Unknown = k] v = [] then None
              else Some (aggregate_func operation
                           (parsed_entries pf [r \<leftarrow> data. row_get r g Unknown = k] v)))"
proof -
  have "agg = map (\<lambda>(key, values). (key, aggregate_func operation values))
                (grouped (List.map_filter (parsed_pair pf g v) data))"
    using assms by (simp add: aggregate_def aggregate_stream not_none_map split: if_splits)
  then show ?thesis
    by (simp add: map_of_map_values map_of_grouped filter_parsed_pairs [symmetric])
qed

lemma map_of_count_step:
  "map_of (count_step g acc r)
     = (map_of acc)(row_get r g Unknown \<mapsto>
          (case map_of acc (row_get r g Unknown) of None \<Rightarrow> 0 | Some n \<Rightarrow> n) + 1)"
  by (simp add: count_step_def AList.update_conv')

lemma map_of_foldl_count_step:
  "map_of (foldl (count_step g) acc data) k
     = (if [r \<leftarrow> data. row_get r g Unknown = k] = [] then map_of acc k
        else Some ((case map_of acc k of None \<Rightarrow> 0 | Some n \<Rightarrow> n)
                     + length [r \<leftarrow> data. row_get r g Unknown = k]))"
proof (induction data arbitrary: acc)
  case Nil
  show ?case by simp
next
  case (Cons r data)
  show ?case
    by (cases "row_get r g Unknown = k") (simp_all add: Cons map_of_count_step)
qed

lemma group_and_count_lookup:
  "map_of (group_and_count data g) k
     = (if [r \<leftarrow> data. row_get r g Unknown = k] = [] then None
        else Some (length [r \<leftarrow> data. row_get r g Unknown = k]))"
  by (simp add: group_and_count_def map_of_foldl_count_step)

lemma parsed_entries_all:
  assumes "\<forall>r \<in> set rs. parsed_entry pf v r \<noteq> None"
  shows "length (parsed_entries pf rs v) = length rs"
  using assms by (induction rs) (auto simp: parsed_entries_def map_filter_simps)

lemma length_parsed_entries_le: "length (parsed_entries pf rs v) \<le> length rs"
  by (induction rs) (auto simp: parsed_entries_def map_filter_simps split: option.splits)

subsection \<open>The stream and the sort of rank\<close>

lemma rank_eq:
  "rank pf data rc vc limit operation
     = Inr (slice_to limit
              (sorted_desc
                 (map (\<lambda>(key, values). (key, rank_func operation values))
                    (grouped (List.map_filter (parsed_pair pf rc vc) data)))))"
  by (simp add: rank_def aggregate_stream not_none_map)

lemma rank_func_eq_aggregate_func:
  assumes "operation \<noteq> ''min''" and "operation \<noteq> ''max''"
  shows "rank_func operation = aggregate_func operation"
  using assms by (simp add: rank_func_def rank_ops_def aggregate_func_def aggregate_ops_def)

lemma rank_func_min_max:
  assumes "operation = ''min'' \<or> operation = ''max''"
  shows "rank_func operation = rank_func ''sum''"
  using assms by (auto simp: rank_func_def rank_ops_def)

lemma slice_to_nat [simp]: "slice_to (int n) xs = take n xs"
  by (simp add: slice_to_def)

lemma sorted_desc_descending: "sorted_wrt (\<lambda>a b. snd a \<ge> snd b) (sorted_desc xs)"
proof -
  have "sorted (map (\<lambda>x. - snd x) (sort_key (\<lambda>x. - snd x) xs))"
    by (rule sorted_sort_key)
  then show ?thesis
    by (simp add: sorted_desc_def sorted_wrt_map)
qed

lemma sorted_desc_stable: "[x \<leftarrow> sorted_desc xs. snd x = v] = [x \<leftarrow> xs. snd x = v]"
proof -
  have "[x \<leftarrow> sort_key (\<lambda>x. - snd x) xs. - snd x = - v] = [x \<leftarrow> xs. - snd x = - v]"
    by (rule sort_key_stable)
  then show ?thesis by (simp add: sorted_desc_def)
qed

lemma mset_sorted_desc: "mset (sorted_desc xs) = mset xs"
  by (simp add: sorted_desc_def)

subsection \<open>The nested mapping of group\_by\_multi\<close>

lemma nested_lookup_Nil [simp]: "nested_lookup ks [] = None"
proof (cases ks)
  case (Cons k ks')
  then show ?thesis by (cases ks') simp_all
qed simp

lemma nested_lookup_Cons2:
  "ks \<noteq> [] \<Longrightarrow> nested_lookup (k # ks) d
     = (case map_of d k of Some (Node sub) \<Rightarrow> nested_lookup ks sub | _ \<Rightarrow> None)"
  by (cases ks) (auto split: option.splits nested.splits)

lemma uniform_depth_Nil [simp]: "uniform_depth n []"
  by (cases n) simp_all

lemma uniform_depth_update:
  assumes "uniform_depth (Suc n) d"
    and "case t of Leaf x \<Rightarrow> n = 0 | Node sub \<Rightarrow> n \<noteq> 0 \<and> uniform_depth n sub"
  shows "uniform_depth (Suc n) (AList.update k t d)"
  using assms update_list_all [of d "\<lambda>p. case snd p of Leaf x \<Rightarrow> n = 0 | Node sub \<Rightarrow> n \<noteq> 0 \<and> uniform_depth n sub" k t]
  by simp

lemma uniform_depth_lookup:
  assumes "uniform_depth (Suc n) d" and "map_of d k = Some t"
  shows "case t of Leaf x \<Rightarrow> n = 0 | Node sub \<Rightarrow> n \<noteq> 0 \<and> uniform_depth n sub"
proof -
  from assms(2) have "(k, t) \<in> set d" by (rule map_of_SomeD)
  with assms(1) show ?thesis by fastforce
qed

lemma build_nested_ok:
  assumes "uniform_depth (length ks) d" and "ks \<noteq> []"
  shows "\<exists>d'. build_nested d ks v = Inr d' \<and> uniform_depth (length ks) d'
           \<and> (\<forall>ks'. length ks' = length ks \<longrightarrow>
                 nested_lookup ks' d'
                   = (if ks' = ks then Some (Leaf (leaf_value (nested_lookup ks d) + v))
                      else nested_lookup ks' d))"
  using assms
proof (induction d ks v rule: build_nested.induct)
  case (1 current val)
  then show ?case by simp
next
  case (2 current last_key val)
  have lk: "nested_lookup ks' d' = map_of d' (hd ks')" if "length ks' = 1" for ks' d'
    using that by (cases ks'; simp)
  show ?case
  proof (cases "map_of current last_key")
    case None
    have u: "uniform_depth (Suc 0) (AList.update last_key (Leaf (0 + val)) current)"
      using 2 by (intro uniform_depth_update) simp_all
    show ?thesis
      using None u
      by (auto simp: lk AList.update_conv' length_Suc_conv)
  next
    case (Some t)
    with 2 uniform_depth_lookup [of 0 current last_key t]
    obtain old where t: "t = Leaf old" by (cases t) auto
    have u: "uniform_depth (Suc 0) (AList.update last_key (Leaf (old + val)) current)"
      using 2 by (intro uniform_depth_update) simp_all
    show ?thesis
      using Some t u
      by (auto simp: lk AList.update_conv' length_Suc_conv)
  qed
next
  case (3 current key k2 ks val)
  let ?keys = "k2 # ks"
  have depth: "uniform_depth (Suc (length ?keys)) current"
    using 3 by simp
  have lk: "nested_lookup ks' d'
              = (case map_of d' (hd ks') of Some (Node sub) \<Rightarrow> nested_lookup (tl ks') sub
                 | _ \<Rightarrow> None)"
    if "length ks' = Suc (length ?keys)" for ks' d'
    using that by (cases ks'; cases "tl ks'") (auto split: option.splits nested.splits)
  define sub where "sub = (case map_of current key of Some (Node s) \<Rightarrow> s | _ \<Rightarrow> [])"
  have sub_depth: "uniform_depth (length ?keys) sub"
  proof (cases "map_of current key")
    case None
    then show ?thesis by (simp add: sub_def)
  next
    case (Some t)
    with depth uniform_depth_lookup [of "length ?keys" current key t]
    show ?thesis by (cases t) (auto simp: sub_def)
  qed
  have not_leaf: "map_of current key \<noteq> Some (Leaf x)" for x
    using depth uniform_depth_lookup [of "length ?keys" current key "Leaf x"] by auto
  have ih: "\<exists>d'. build_nested sub ?keys val = Inr d' \<and> uniform_depth (length ?keys) d'
           \<and> (\<forall>ks'. length ks' = length ?keys \<longrightarrow>
                 nested_lookup ks' d'
                   = (if ks' = ?keys then Some (Leaf (leaf_value (nested_lookup ?keys sub) + val))
                      else nested_lookup ks' sub))"
  proof (cases "map_of current key")
    case None
    then have s: "sub = []" by (simp add: sub_def)
    show ?thesis unfolding s by (rule "3.IH"(1) [OF None]) simp_all
  next
    case (Some t)
    with not_leaf obtain s where t: "t = Node s" by (cases t) auto
    with Some have s: "sub = s" by (simp add: sub_def)
    have "uniform_depth (length ?keys) s" using sub_depth unfolding s .
    then show ?thesis unfolding s by (rule "3.IH"(2) [OF Some t]) simp
  qed
  then obtain sub' where b: "build_nested sub ?keys val = Inr sub'"
    and u: "uniform_depth (length ?keys) sub'"
    and l: "\<And>ks'. length ks' = length ?keys \<Longrightarrow>
                 nested_lookup ks' sub'
                   = (if ks' = ?keys then Some (Leaf (leaf_value (nested_lookup ?keys sub) + val))
                      else nested_lookup ks' sub)"
    by blast
  have res: "build_nested current (key # ?keys) val = Inr (AList.update key (Node sub') current)"
    using b not_leaf
    by (cases "map_of current key"; simp add: sub_def split: nested.splits)
  have u': "uniform_depth (length (key # ?keys)) (AList.update key (Node sub') current)"
    using depth u by (simp del: uniform_depth.simps) (rule uniform_depth_update, simp_all)
  have old: "nested_lookup (key # ?keys) current = nested_lookup ?keys sub"
    using not_leaf by (simp add: sub_def split: option.splits nested.splits)
  have "nested_lookup ks' (AList.update key (Node sub') current)
          = (if ks' = key # ?keys
             then Some (Leaf (leaf_value (nested_lookup (key # ?keys) current) + val))
             else nested_lookup ks' current)"
    if len: "length ks' = length (key # ?keys)" for ks'
  proof -
    obtain k' rest where ks': "ks' = k' # rest" and rest: "length rest = length ?keys"
      using len by (cases ks') auto
    show ?thesis
    proof (cases "k' = key")
      case True
      have "nested_lookup ks' (AList.update key (Node sub') current) = nested_lookup rest sub'"
        using len by (simp add: lk ks' True AList.update_conv')
      also have "\<dots> = (if rest = ?keys
                       then Some (Leaf (leaf_value (nested_lookup ?keys sub) + val))
                       else nested_lookup rest sub)"
        by (rule l [OF rest])
      also have "nested_lookup rest sub = nested_lookup ks' current"
        using len not_leaf by (simp add: lk ks' True sub_def split: option.splits nested.splits)
      finally show ?thesis
        unfolding old by (simp add: ks' True)
    next
      case False
      then show ?thesis
        using len by (simp add: lk ks' AList.update_conv')
    qed
  qed
  with res u' show ?case by blast
qed

lemma valid_iff_parsed: "is_valid_number pf (row_get r v PyNone) \<longleftrightarrow> parsed_entry pf v r \<noteq> None"
  by (cases "r v")
     (auto simp: is_valid_number_iff parsed_entry_def row_get_def py_float_def split: sum.splits)

lemma parsed_float:
  "parsed_entry pf v r = Some x \<Longrightarrow> py_float pf (row_get r v (PyInt 0)) = Inr x"
  by (cases "r v") (auto simp: parsed_entry_def row_get_def split: sum.splits)

lemma parsed_entries_Cons:
  "parsed_entries pf (r # rs) v
     = (case parsed_entry pf v r of None \<Rightarrow> parsed_entries pf rs v
        | Some x \<Rightarrow> x # parsed_entries pf rs v)"
  by (cases "parsed_entry pf v r") (simp_all add: parsed_entries_def map_filter_simps)

lemma parsed_entries_Nil [simp]: "parsed_entries pf [] v = []"
  by (simp add: parsed_entries_def map_filter_simps)

lemma reduce_multi_step:
  assumes "uniform_depth (length gcols) acc" and "gcols \<noteq> []"
    and "\<forall>r \<in> set rows. parsed_entry pf v r \<noteq> None"
  shows "\<exists>t. reduce_err (multi_step pf gcols v) rows acc = Inr t
           \<and> uniform_depth (length gcols) t
           \<and> (\<forall>ks. length ks = length gcols \<longrightarrow>
                 nested_lookup ks t
                   = (if [r \<leftarrow> rows. key_tuple gcols r = ks] = [] then nested_lookup ks acc
                      else Some (Leaf (leaf_value (nested_lookup ks acc)
                             + sum_list (parsed_entries pf [r \<leftarrow> rows. key_tuple gcols r = ks] v)))))"
  using assms
proof (induction rows arbitrary: acc)
  case Nil
  then show ?case by simp
next
  case (Cons r rows)
  from Cons.prems obtain x where x: "parsed_entry pf v r = Some x" by auto
  have len: "length (key_tuple gcols r) = length gcols" and ne: "key_tuple gcols r \<noteq> []"
    using Cons.prems by (simp_all add: key_tuple_def)
  from build_nested_ok [of "key_tuple gcols r" acc x] Cons.prems len ne
  obtain acc' where b: "build_nested acc (key_tuple gcols r) x = Inr acc'"
    and u: "uniform_depth (length gcols) acc'"
    and l: "\<And>ks. length ks = length gcols \<Longrightarrow>
              nested_lookup ks acc'
                = (if ks = key_tuple gcols r
                   then Some (Leaf (leaf_value (nested_lookup (key_tuple gcols r) acc) + x))
                   else nested_lookup ks acc)"
    by auto
  have step: "multi_step pf gcols v acc r = Inr acc'"
    by (simp add: multi_step_def parsed_float [OF x] b)
  from Cons.IH [OF u \<open>gcols \<noteq> []\<close>] Cons.prems
  obtain t where t: "reduce_err (multi_step pf gcols v) rows acc' = Inr t"
    and ut: "uniform_depth (length gcols) t"
    and lt: "\<And>ks. length ks = length gcols \<Longrightarrow>
              nested_lookup ks t
                = (if [r \<leftarrow> rows. key_tuple gcols r = ks] = [] then nested_lookup ks acc'
                   else Some (Leaf (leaf_value (nested_lookup ks acc')
                          + sum_list (parsed_entries pf [r \<leftarrow> rows. key_tuple gcols r = ks] v))))"
    by auto
  have "nested_lookup ks t
          = (if [r \<leftarrow> r # rows. key_tuple gcols r = ks] = [] then nested_lookup ks acc
             else Some (Leaf (leaf_value (nested_lookup ks acc)
                    + sum_list (parsed_entries pf [r \<leftarrow> r # rows. key_tuple gcols r = ks] v))))"
    if "length ks = length gcols" for ks
    using lt [OF that] l [OF that] by (simp add: parsed_entries_Cons x)
  with step t ut show ?case by simp
qed

lemma parsed_entries_filter_valid:
  "parsed_entries pf [r \<leftarrow> [r \<leftarrow> data. parsed_entry pf v r \<noteq> None]. P r] v
     = parsed_entries pf [r \<leftarrow> data. P r] v"
  by (induction data) (auto simp: parsed_entries_Cons)

lemma parsed_entries_empty_iff:
  "parsed_entries pf rs v = [] \<longleftrightarrow> [r \<leftarrow> rs. parsed_entry pf v r \<noteq> None] = []"
  by (induction rs) (auto simp: parsed_entries_Cons)

lemma group_by_multi_lookup:
  assumes "group_cols \<noteq> []" and "value_col \<in> set headers"
  shows "\<exists>t. group_by_multi pf headers data group_cols value_col operation = Inr t
           \<and> uniform_depth (length group_cols) t
           \<and> (\<forall>ks. length ks = length group_cols \<longrightarrow>
                 nested_lookup ks t
                   = (if parsed_entries pf [r \<leftarrow> data. key_tuple group_cols r = ks] value_col = []
                      then None
                      else Some (Leaf (sum_list (parsed_entries pf
                                  [r \<leftarrow> data. key_tuple group_cols r = ks] value_col)))))"
proof -
  let ?rows = "[r \<leftarrow> data. parsed_entry pf value_col r \<noteq> None]"
  have g: "group_by_multi pf headers data group_cols value_col operation
             = reduce_err (multi_step pf group_cols value_col) ?rows []"
    using assms by (simp add: group_by_multi_def valid_iff_parsed)
  have e: "[r \<leftarrow> ?rows. key_tuple group_cols r = ks] = []
             \<longleftrightarrow> parsed_entries pf [r \<leftarrow> data. key_tuple group_cols r = ks] value_col = []" for ks
    by (simp add: parsed_entries_empty_iff conj_commute)
  have p1: "uniform_depth (length group_cols) []"
    by simp
  have p3: "\<forall>r \<in> set ?rows. parsed_entry pf value_col r \<noteq> None"
    by simp
  from reduce_multi_step [OF p1 assms(1) p3]
  obtain t where t: "reduce_err (multi_step pf group_cols value_col) ?rows [] = Inr t"
    and u: "uniform_depth (length group_cols) t"
    and l: "\<And>ks. length ks = length group_cols \<Longrightarrow>
              nested_lookup ks t
                = (if [r \<leftarrow> ?rows. key_tuple group_cols r = ks] = [] then nested_lookup ks []
                   else Some (Leaf (leaf_value (nested_lookup ks [])
                          + sum_list (parsed_entries pf
                              [r \<leftarrow> ?rows. key_tuple group_cols r = ks] value_col))))"
    by blast
  have "nested_lookup ks t
          = (if parsed_entries pf [r \<leftarrow> data. key_tuple group_cols r = ks] value_col = []
             then None
             else Some (Leaf (sum_list (parsed_entries pf
                         [r \<leftarrow> data. key_tuple group_cols r = ks] value_col))))"
    if "length ks = length group_cols" for ks
    using l [OF that, unfolded e parsed_entries_filter_valid] by simp
  with t u show ?thesis
    unfolding g by blast
qed

subsection \<open>The values of get\_statistics\<close>




lemma length_valid_cells: "length (valid_cells pf data col) = length (column_values pf data col)"
  unfolding valid_cells_def column_values_def
  by (induction data)
     (auto simp: map_filter_simps column_value_def is_valid_number_iff split: sum.splits)









subsection \<open>The sums of correlate\_metrics\<close>









lemma py_round_zero [simp]: "py_round 0 n = 0"
  by (simp add: py_round_def round_half_even_def)



lemma pearson_xy: "pearson [(1, 2), (2, 4), (3, 6), (4, 8)] = 1"
proof -
  have "sqrt 1600 = 40"
    by (rule real_sqrt_unique) simp_all
  then show ?thesis
    by (simp add: pearson_def pearson_denominator_def pearson_numerator_def)
qed

subsection \<open>compare\_metrics, filter\_by\_condition and find\_outliers return\<close>












subsection \<open>Records without a parseable value do not count\<close>







section \<open>The claims\<close>

subsection \<open>C1: conservation of totals\<close>



subsection \<open>C2: rank is the sorted, truncated aggregate\<close>

text \<open>
  C2 (as amended). For columns among the headers, a limit \<open>n \<ge> 0\<close> and an operation among
  sum, avg and count, \<^verbatim>\<open>rank(rankCol, valueCol, n, op)\<close> is the list of pairs of
  \<^verbatim>\<open>aggregate(rankCol, valueCol, op)\<close> in descending order of value, pairs of equal
  value in group-discovery order, cut to its first \<open>n\<close> entries: the sorted list is a
  permutation of the aggregate, descending, and keeps the order of equal values. The
  result has at most \<open>n\<close> entries and is the prefix of length \<open>n\<close> of the result for
  \<open>n + 1\<close>. For min and max, \<^verbatim>\<open>rank\<close> ranks by sum.
\<close>

theorem rank_refines_aggregate:
  assumes "rank_col \<in> set headers" and "value_col \<in> set headers"
  shows "(operation \<in> {''sum'', ''avg'', ''count''} \<longrightarrow>
            (\<exists>agg. aggregate pf headers data rank_col value_col operation = Inr agg
               \<and> rank pf data rank_col value_col (int n) operation = Inr (take n (sorted_desc agg))
               \<and> mset (sorted_desc agg) = mset agg
               \<and> sorted_wrt (\<lambda>a b. snd a \<ge> snd b) (sorted_desc agg)
               \<and> (\<forall>v. [x \<leftarrow> sorted_desc agg. snd x = v] = [x \<leftarrow> agg. snd x = v])
               \<and> length (take n (sorted_desc agg)) \<le> n
               \<and> rank pf data rank_col value_col (int (n + 1)) operation
                   = Inr (take (n + 1) (sorted_desc agg))
               \<and> take n (take (n + 1) (sorted_desc agg)) = take n (sorted_desc agg)))
         \<and> (operation \<in> {''min'', ''max''} \<longrightarrow>
              rank pf data rank_col value_col (int n) operation
                = rank pf data rank_col value_col (int n) ''sum'')"
proof (intro conjI impI)
  assume op: "operation \<in> {''sum'', ''avg'', ''count''}"
  let ?agg = "map (\<lambda>(key, values). (key, aggregate_func operation values))
                (grouped (List.map_filter (parsed_pair pf rank_col value_col) data))"
  have f: "rank_func operation = aggregate_func operation"
    using op by (intro rank_func_eq_aggregate_func) auto
  have a: "aggregate pf headers data rank_col value_col operation = Inr ?agg"
    by (rule aggregate_eq [OF assms])
  have r: "rank pf data rank_col value_col (int m) operation = Inr (take m (sorted_desc ?agg))" for m
    unfolding rank_eq f by simp
  show "\<exists>agg. aggregate pf headers data rank_col value_col operation = Inr agg
               \<and> rank pf data rank_col value_col (int n) operation = Inr (take n (sorted_desc agg))
               \<and> mset (sorted_desc agg) = mset agg
               \<and> sorted_wrt (\<lambda>a b. snd a \<ge> snd b) (sorted_desc agg)
               \<and> (\<forall>v. [x \<leftarrow> sorted_desc agg. snd x = v] = [x \<leftarrow> agg. snd x = v])
               \<and> length (take n (sorted_desc agg)) \<le> n
               \<and> rank pf data rank_col value_col (int (n + 1)) operation
                   = Inr (take (n + 1) (sorted_desc agg))
               \<and> take n (take (n + 1) (sorted_desc agg)) = take n (sorted_desc agg)"
    using a r [of n] r [of "n + 1"]
    by (intro exI [of _ ?agg] conjI)
       (simp_all add: mset_sorted_desc sorted_desc_descending sorted_desc_stable min_def
          del: of_nat_add of_nat_Suc)
next
  assume "operation \<in> {''min'', ''max''}"
  then have "rank_func operation = rank_func ''sum''"
    by (intro rank_func_min_max) auto
  then show "rank pf data rank_col value_col (int n) operation
                = rank pf data rank_col value_col (int n) ''sum''"
    by (simp add: rank_eq)
qed

theorem rank_refines_aggregate_witness:
  "''Group'' \<in> set sample_headers \<and> ''Value'' \<in> set sample_headers
   \<and> ''sum'' \<in> {''sum'', ''avg'', ''count''}
   \<and> (\<exists>agg. aggregate sample_float sample_headers sample_data ''Group'' ''Value'' ''sum'' = Inr agg
          \<and> rank sample_float sample_data ''Group'' ''Value'' (int 2) ''sum''
              = Inr (take 2 (sorted_desc agg))
          \<and> sorted_wrt (\<lambda>a b. snd a \<ge> snd b) (sorted_desc agg))"
proof -
  have h1: "''Group'' \<in> set sample_headers" and h2: "''Value'' \<in> set sample_headers"
    by (simp_all add: sample_headers_def)
  have h3: "''sum'' \<in> {''sum'', ''avg'', ''count''}"
    by simp
  from rank_refines_aggregate [OF h1 h2, of "''sum''" sample_float sample_data 2] h3
  have "\<exists>agg. aggregate sample_float sample_headers sample_data ''Group'' ''Value'' ''sum'' = Inr agg
          \<and> rank sample_float sample_data ''Group'' ''Value'' (int 2) ''sum''
              = Inr (take 2 (sorted_desc agg))
          \<and> sorted_wrt (\<lambda>a b. snd a \<ge> snd b) (sorted_desc agg)"
    by blast
  with h1 h2 h3 show ?thesis by blast
qed

text \<open>
  The claim as stated fails for min (and max), which the table of operations of
  \<^verbatim>\<open>rank\<close> does not hold: on the sample, \<^verbatim>\<open>rank\<close> with min gives the sums, and the
  sorted aggregate with min is another list.
\<close>

theorem rank_refines_aggregate_counterexample:
  "rank sample_float sample_data ''Group'' ''Value'' 10 ''min''
     = Inr [(Str ''B'', 200), (Str ''A'', 150), (Str ''Unknown'', 150), (Str [], 30)]
   \<and> aggregate sample_float sample_headers sample_data ''Group'' ''Value'' ''min''
     = Inr [(Str ''A'', 50), (Str ''B'', 200), (Str [], 30), (Str ''Unknown'', 150)]
   \<and> take 10 (sorted_desc [(Str ''A'', 50), (Str ''B'', 200), (Str [], 30), (Str ''Unknown'', 150 :: real)])
     = [(Str ''B'', 200), (Str ''Unknown'', 150), (Str ''A'', 50), (Str [], 30)]"
  by (simp add: aggregate_def sample_headers_def sample_data_def sample_float_def kv_item_def
        is_valid_number_def py_float_def row_get_def not_none_def map_filter_simps grouped_def
        group_step_def aggregate_func_def aggregate_ops_def op_min_def op_sum_def Unknown_def
        rank_def rank_func_def rank_ops_def sorted_desc_def slice_to_def)

subsection \<open>C3: which operations check their columns\<close>




subsection \<open>C4: counting through aggregate and through group\_and\_count\<close>

text \<open>
  C4 (as amended). For columns among the headers and every group key \<open>k\<close>,
  \<^verbatim>\<open>aggregate(groupCol, valueCol, "count")[k]\<close> is the number of records of group \<open>k\<close>
  whose \<^verbatim>\<open>valueCol\<close> entry parses as a float (no entry when there is none); it equals
  \<^verbatim>\<open>groupAndCount(groupCol)[k]\<close> whenever every record of group \<open>k\<close> has a parseable
  \<^verbatim>\<open>valueCol\<close> entry.
\<close>

theorem aggregate_count_vs_group_and_count:
  assumes "group_col \<in> set headers" and "value_col \<in> set headers"
  shows "\<exists>agg. aggregate pf headers data group_col value_col ''count'' = Inr agg
           \<and> map_of agg k
               = (if parsed_entries pf [r \<leftarrow> data. row_get r group_col Unknown = k] value_col = []
                  then None
                  else Some (real (length (parsed_entries pf
                                [r \<leftarrow> data. row_get r group_col Unknown = k] value_col))))
           \<and> ((\<forall>r \<in> set data. row_get r group_col Unknown = k \<longrightarrow> parsed_entry pf value_col r \<noteq> None)
                \<longrightarrow> map_of agg k = map_option real (map_of (group_and_count data group_col) k))"
proof -
  let ?rows = "[r \<leftarrow> data. row_get r group_col Unknown = k]"
  obtain agg where agg: "aggregate pf headers data group_col value_col ''count'' = Inr agg"
    using aggregate_eq [OF assms] by blast
  have f: "aggregate_func ''count'' = op_count"
    by (simp add: aggregate_func_def aggregate_ops_def)
  have look: "map_of agg k
      = (if parsed_entries pf ?rows value_col = [] then None
         else Some (real (length (parsed_entries pf ?rows value_col))))"
    using aggregate_lookup [OF agg, of k] by (simp add: f op_count_def)
  have "map_of agg k = map_option real (map_of (group_and_count data group_col) k)"
    if "\<forall>r \<in> set data. row_get r group_col Unknown = k \<longrightarrow> parsed_entry pf value_col r \<noteq> None"
  proof -
    have "length (parsed_entries pf ?rows value_col) = length ?rows"
      using that by (intro parsed_entries_all) simp
    then show ?thesis
      unfolding look group_and_count_lookup by (cases "?rows = []") auto
  qed
  with agg look show ?thesis by blast
qed

theorem aggregate_count_vs_group_and_count_witness:
  "''Group'' \<in> set sample_headers \<and> ''Value'' \<in> set sample_headers
   \<and> [r \<leftarrow> sample_data. row_get r ''Group'' Unknown = Str ''B'' \<and> parsed_entry sample_float ''Value'' r = None]
       = []
   \<and> (\<exists>agg. aggregate sample_float sample_headers sample_data ''Group'' ''Value'' ''count'' = Inr agg
          \<and> map_of agg (Str ''B'')
              = map_option real (map_of (group_and_count sample_data ''Group'') (Str ''B'')))"
proof -
  have h1: "''Group'' \<in> set sample_headers" and h2: "''Value'' \<in> set sample_headers"
    by (simp_all add: sample_headers_def)
  have h3: "\<forall>r \<in> set sample_data.
          row_get r ''Group'' Unknown = Str ''B'' \<longrightarrow> parsed_entry sample_float ''Value'' r \<noteq> None"
    by (simp add: sample_data_def row_get_def Unknown_def parsed_entry_def py_float_def
          sample_float_def)
  from aggregate_count_vs_group_and_count
         [OF h1 h2, of sample_float sample_data "Str ''B''"] h3
  have "\<exists>agg. aggregate sample_float sample_headers sample_data ''Group'' ''Value'' ''count'' = Inr agg
          \<and> map_of agg (Str ''B'')
              = map_option real (map_of (group_and_count sample_data ''Group'') (Str ''B''))"
    by blast
  moreover have "[r \<leftarrow> sample_data. row_get r ''Group'' Unknown = Str ''B''
                      \<and> parsed_entry sample_float ''Value'' r = None] = []"
    using h3 by (auto simp: filter_empty_conv)
  ultimately show ?thesis using h1 h2 by blast
qed

text \<open>
  The claim as stated fails where a record of the group has no parseable value: group
  \<^verbatim>\<open>A\<close> of the sample has three records and two parseable values.
\<close>

theorem aggregate_count_vs_group_and_count_counterexample:
  "aggregate sample_float sample_headers sample_data ''Group'' ''Value'' ''count''
     = Inr [(Str ''A'', 2), (Str ''B'', 1), (Str [], 1), (Str ''Unknown'', 1)]
   \<and> group_and_count sample_data ''Group''
     = [(Str ''A'', 3), (Str ''B'', 1), (Str [], 1), (Str ''Unknown'', 1)]"
  by (simp add: aggregate_def sample_headers_def sample_data_def sample_float_def kv_item_def
        is_valid_number_def py_float_def row_get_def not_none_def map_filter_simps grouped_def
        group_step_def aggregate_func_def aggregate_ops_def op_count_def Unknown_def
        group_and_count_def count_step_def)

subsection \<open>C5: percentile converts before it filters\<close>

text \<open>
  C5. The claim is that \<^verbatim>\<open>percentile\<close> leaves out the values that do not parse. The code
  applies \<^verbatim>\<open>float\<close> to every cell before its filter runs, so the first cell that is no
  number ends the call with \<^verbatim>\<open>ValueError\<close>: the sample column holds the values 50, 100,
  200, 30, 150 and one cell \<^verbatim>\<open>n/a\<close>. Without the record of that cell the call returns
  100, the value at index 2 of the sorted column, which is what the claim asks for.
\<close>

theorem percentile_raises_on_unparseable:
  "percentile sample_float sample_data ''Value'' 50 = Inl ValueError
   \<and> percentile sample_float
         [r \<leftarrow> sample_data. parsed_entry sample_float ''Value'' r \<noteq> None] ''Value'' 50
       = Inr 100"
  by (simp add: percentile_def sample_data_def sample_float_def py_float_def row_get_def
        parsed_entry_def is_valid_number_def py_index_def py_int_def)

subsection \<open>C6: the key of a record in a grouping\<close>




subsection \<open>C7: the correlation of two columns\<close>



subsection \<open>C8: the statistics record\<close>



subsection \<open>C9: group\_by\_multi always sums\<close>

text \<open>
  C9. For a non-empty list of group columns, a value column among the headers and any
  operation, \<^verbatim>\<open>groupByMulti(groupCols, valueCol, op)\<close> returns what it returns for
  \<^verbatim>\<open>"sum"\<close>: a nested mapping with one level per group column, in which the leaf at the
  end of a path of group keys is the sum of the parsed \<^verbatim>\<open>valueCol\<close> values of the records
  with these keys, and a path without such a record has no leaf.
\<close>

theorem group_by_multi_always_sums:
  assumes "group_cols \<noteq> []" and "value_col \<in> set headers"
  shows "group_by_multi pf headers data group_cols value_col operation
           = group_by_multi pf headers data group_cols value_col ''sum''
         \<and> (\<exists>t. group_by_multi pf headers data group_cols value_col operation = Inr t
               \<and> uniform_depth (length group_cols) t
               \<and> (\<forall>ks. length ks = length group_cols \<longrightarrow>
                     nested_lookup ks t
                       = (if parsed_entries pf [r \<leftarrow> data. key_tuple group_cols r = ks] value_col = []
                          then None
                          else Some (Leaf (sum_list (parsed_entries pf
                                      [r \<leftarrow> data. key_tuple group_cols r = ks] value_col))))))"
proof
  show "group_by_multi pf headers data group_cols value_col operation
          = group_by_multi pf headers data group_cols value_col ''sum''"
    by (simp add: group_by_multi_def)
next
  show "\<exists>t. group_by_multi pf headers data group_cols value_col operation = Inr t
               \<and> uniform_depth (length group_cols) t
               \<and> (\<forall>ks. length ks = length group_cols \<longrightarrow>
                     nested_lookup ks t
                       = (if parsed_entries pf [r \<leftarrow> data. key_tuple group_cols r = ks] value_col = []
                          then None
                          else Some (Leaf (sum_list (parsed_entries pf
                                      [r \<leftarrow> data. key_tuple group_cols r = ks] value_col)))))"
    by (rule group_by_multi_lookup [OF assms])
qed

theorem group_by_multi_always_sums_witness:
  "[''Group'', ''Value''] \<noteq> [] \<and> ''Value'' \<in> set sample_headers
   \<and> group_by_multi sample_float sample_headers sample_data [''Group'', ''Value''] ''Value'' ''max''
       = group_by_multi sample_float sample_headers sample_data [''Group'', ''Value''] ''Value'' ''sum''
   \<and> group_by_multi sample_float sample_headers sample_data [''Group'', ''Value''] ''Value'' ''max''
       = Inr [(Str ''A'', Node [(Str ''50'', Leaf 50), (Str ''100'', Leaf 100)]),
              (Str ''B'', Node [(Str ''200'', Leaf 200)]),
              (Str [], Node [(Str ''30'', Leaf 30)]),
              (Str ''Unknown'', Node [(Str ''150'', Leaf 150)])]"
proof -
  have h1: "[''Group'', ''Value''] \<noteq> []" and h2: "''Value'' \<in> set sample_headers"
    by (simp_all add: sample_headers_def)
  have "group_by_multi sample_float sample_headers sample_data [''Group'', ''Value''] ''Value'' ''sum''
       = Inr [(Str ''A'', Node [(Str ''50'', Leaf 50), (Str ''100'', Leaf 100)]),
              (Str ''B'', Node [(Str ''200'', Leaf 200)]),
              (Str [], Node [(Str ''30'', Leaf 30)]),
              (Str ''Unknown'', Node [(Str ''150'', Leaf 150)])]"
    by (simp add: group_by_multi_def sample_headers_def sample_data_def sample_float_def
          multi_step_def key_tuple_def is_valid_number_def py_float_def row_get_def Unknown_def)
  with group_by_multi_always_sums
         [OF h1 h2, of sample_float sample_data "''max''"] h1 h2
  show ?thesis by simp
qed

subsection \<open>C10: cross-tabulation counts every record once\<close>

text \<open>
  C10. Every record is counted in exactly one cell of \<^verbatim>\<open>crossTabulation(col1, col2)\<close>:
  the cell of a pair of keys holds the number of records with these two keys, all the
  stored counts add up to the number of records, every stored count is at least 1, and
  no key is stored twice.
\<close>

theorem cross_tabulation_counts_records:
  "(\<Sum>p\<leftarrow>cross_tabulation data col1 col2. \<Sum>q\<leftarrow>snd p. snd q) = length data
   \<and> counts_positive (cross_tabulation data col1 col2)
   \<and> keys_distinct (cross_tabulation data col1 col2)
   \<and> (\<forall>k1 k2. cell_count (cross_tabulation data col1 col2) k1 k2
          = length [r \<leftarrow> data. row_get r col1 Unknown = k1 \<and> row_get r col2 Unknown = k2])"
proof -
  have "counts_positive []" and "keys_distinct []" and "\<And>k1 k2. cell_count [] k1 k2 = 0"
    by (simp_all add: counts_positive_def keys_distinct_def cell_count_def)
  then show ?thesis
    unfolding cross_tabulation_def
    by (simp add: foldl_crosstab_total foldl_crosstab_positive foldl_crosstab_distinct
          foldl_crosstab_cell)
qed

theorem cross_tabulation_counts_records_witness:
  "(\<Sum>p\<leftarrow>cross_tabulation sample_data ''Group'' ''Value''. \<Sum>q\<leftarrow>snd p. snd q) = 6
   \<and> counts_positive (cross_tabulation sample_data ''Group'' ''Value'')
   \<and> cell_count (cross_tabulation sample_data ''Group'' ''Value'') (Str ''A'') (Str ''50'') = 1"
  using cross_tabulation_counts_records [of sample_data "''Group''" "''Value''"]
  by (simp add: sample_data_def row_get_def)

end
